theory Spec2Isabelle
  imports Main "HOL-Library.Word" "HOL-Library.Multiset" "HOL-Library.List_Lexorder" "HOL-Library.Char_ord"
begin

unbundle bit_operations_syntax

section \<open>Package split: data model\<close>

text \<open>
  A shallow embedding of \<^verbatim>\<open>pkg/split/split.go\<close>. Bytes are 8-bit words, Go strings are
  \<open>string\<close> (one \<open>char\<close> per byte), Go's \<^verbatim>\<open>int\<close> is \<open>int\<close> where it can be negative
  (the requested chunk count) and \<open>nat\<close> for lengths and loop indices.
\<close>

type_synonym byte = "8 word"

text \<open>\<^verbatim>\<open>MinChunks = 2\<close>, \<^verbatim>\<open>MaxFilenameLength = 46\<close>.\<close>

definition MinChunks :: int where
  "MinChunks = 2"

definition MaxFilenameLength :: nat where
  "MaxFilenameLength = 46"

text \<open>
  \<^verbatim>\<open>type metadata struct { Hash [32]byte; Total uint32; Size int64; Time int64; Name [46]byte }\<close>.
  The two arrays are byte lists; \<open>wf_metadata\<close> states their fixed lengths, which the Go
  types guarantee.
\<close>

record metadata =
  Hash :: "byte list"
  Total :: "32 word"
  Size :: "64 word"
  Time :: "64 word"
  Name :: "byte list"

definition wf_metadata :: "metadata \<Rightarrow> bool" where
  "wf_metadata m = (length (Hash m) = 32 \<and> length (Name m) = MaxFilenameLength)"

text \<open>Every \<^verbatim>\<open>return fmt.Errorf(...)\<close> and \<^verbatim>\<open>errors.New(...)\<close> of the package, by message.\<close>

datatype error =
    ErrMinChunks          \<comment> \<open>chunks must be at least 2\<close>
  | ErrStat               \<comment> \<open>failed to get file stats\<close>
  | ErrMkdir              \<comment> \<open>failed to create output directory\<close>
  | ErrWriteChunk         \<comment> \<open>failed to write chunk file\<close>
  | ErrReadFile           \<comment> \<open>error reading file\<close>
  | ErrCheckFiles         \<comment> \<open>failed to check chunk files: failed to read directory\<close>
  | ErrNoChunkFiles       \<comment> \<open>no chunk files found in the specified directory\<close>
  | ErrExtractOpen        \<comment> \<open>failed to extract metadata: failed to open file\<close>
  | ErrExtractRead        \<comment> \<open>failed to extract metadata: failed to read metadata\<close>
  | ErrNoFirstChunk       \<comment> \<open>first chunk (index 0) not found\<close>
  | ErrCreateOutput       \<comment> \<open>failed to create output file\<close>
  | ErrOpenChunk          \<comment> \<open>failed to open chunk file\<close>
  | ErrCopyChunk          \<comment> \<open>failed to copy chunk data (MergeFile)\<close>
  | ErrHashMismatch       \<comment> \<open>hash mismatch: file not reconstructed properly\<close>
  | ErrNilInput           \<comment> \<open>input is nil\<close>
  | ErrSliceLen           \<comment> \<open>output slice length must be chunks\<close>
  | ErrGobEncode          \<comment> \<open>gob encode failed\<close>
  | ErrNilOutput          \<comment> \<open>output is nil\<close>
  | ErrNoChunksProvided   \<comment> \<open>no chunks provided\<close>
  | ErrNotBytes nat       \<comment> \<open>chunk at index i is not []byte\<close>
  | ErrNoData             \<comment> \<open>no data to decode\<close>
  | ErrGobDecode          \<comment> \<open>gob.Decode failed\<close>
  | ErrOpenSource         \<comment> \<open>failed to open source chunk file\<close>
  | ErrCreateDest         \<comment> \<open>failed to create destination file\<close>
  | ErrInjectCopy         \<comment> \<open>failed to copy chunk data (injectMetadata)\<close>
  | ErrRemoveTemp         \<comment> \<open>failed to remove temporary file\<close>

text \<open>
  The errors that report a rejected argument (the spec's validation errors): a chunk count
  below the minimum, a nil input, an output slice of the wrong length.
\<close>

fun is_validation_error :: "error \<Rightarrow> bool" where
  "is_validation_error ErrMinChunks = True"
| "is_validation_error ErrNilInput = True"
| "is_validation_error ErrSliceLen = True"
| "is_validation_error _ = False"

section \<open>Metadata codec\<close>

text \<open>
  \<^verbatim>\<open>encoding/binary\<close> with \<^verbatim>\<open>binary.BigEndian\<close>: \<^verbatim>\<open>PutUint32\<close> stores
  \<^verbatim>\<open>byte(v >> 24), byte(v >> 16), byte(v >> 8), byte(v)\<close>, and \<^verbatim>\<open>Uint32\<close> reads
  \<^verbatim>\<open>uint32(b[3]) | uint32(b[2])<<8 | uint32(b[1])<<16 | uint32(b[0])<<24\<close>; the
  64-bit pair likewise. An \<^verbatim>\<open>int64\<close> is written as its two's complement bits.
\<close>

definition PutUint32 :: "32 word \<Rightarrow> byte list" where
  "PutUint32 v = [ucast (drop_bit 24 v), ucast (drop_bit 16 v), ucast (drop_bit 8 v), ucast v]"

definition Uint32 :: "byte list \<Rightarrow> 32 word" where
  "Uint32 b = ucast (b ! 3) OR push_bit 8 (ucast (b ! 2)) OR push_bit 16 (ucast (b ! 1))
              OR push_bit 24 (ucast (b ! 0))"

definition PutUint64 :: "64 word \<Rightarrow> byte list" where
  "PutUint64 v = [ucast (drop_bit 56 v), ucast (drop_bit 48 v), ucast (drop_bit 40 v),
                  ucast (drop_bit 32 v), ucast (drop_bit 24 v), ucast (drop_bit 16 v),
                  ucast (drop_bit 8 v), ucast v]"

definition Uint64 :: "byte list \<Rightarrow> 64 word" where
  "Uint64 b = ucast (b ! 7) OR push_bit 8 (ucast (b ! 6)) OR push_bit 16 (ucast (b ! 5))
              OR push_bit 24 (ucast (b ! 4)) OR push_bit 32 (ucast (b ! 3))
              OR push_bit 40 (ucast (b ! 2)) OR push_bit 48 (ucast (b ! 1))
              OR push_bit 56 (ucast (b ! 0))"

text \<open>\<^verbatim>\<open>binary.Size(meta)\<close>: 32 + 4 + 8 + 8 + 46.\<close>

definition metadata_size :: nat where
  "metadata_size = 98"

text \<open>
  \<^verbatim>\<open>binary.Write(buf, binary.BigEndian, meta)\<close> (in \<^verbatim>\<open>injectMetadata\<close>): the fields in
  declaration order, no padding.
\<close>

definition encode_metadata :: "metadata \<Rightarrow> byte list" where
  "encode_metadata m =
     Hash m @ PutUint32 (Total m) @ PutUint64 (Size m) @ PutUint64 (Time m) @ Name m"

text \<open>
  \<^verbatim>\<open>binary.Read(f, binary.BigEndian, meta)\<close> (in \<^verbatim>\<open>extractMetadata\<close>) on a reader with
  the bytes \<open>bs\<close> left: it reads \<^verbatim>\<open>binary.Size(meta)\<close> bytes with \<^verbatim>\<open>io.ReadFull\<close>, which
  fails (\<^verbatim>\<open>io.EOF\<close> or \<^verbatim>\<open>io.ErrUnexpectedEOF\<close>) when fewer are there.
\<close>

definition decode_metadata :: "byte list \<Rightarrow> error + metadata" where
  "decode_metadata bs =
     (if length bs < metadata_size then Inl ErrExtractRead
      else Inr \<lparr> Hash = take 32 bs,
                 Total = Uint32 (take 4 (drop 32 bs)),
                 Size = Uint64 (take 8 (drop 36 bs)),
                 Time = Uint64 (take 8 (drop 44 bs)),
                 Name = take 46 (drop 52 bs) \<rparr>)"

section \<open>Generic value splitter and joiner\<close>

text \<open>
  A Go \<^verbatim>\<open>any\<close>: nil, a \<^verbatim>\<open>[]byte\<close>, or some other value. \<^verbatim>\<open>encoding/gob\<close> is a
  parameter: \<open>gob_enc\<close> is \<^verbatim>\<open>gob.NewEncoder(&buf).Encode(v)\<close> (\<open>None\<close> when it fails) and
  \<open>gob_dec bs old\<close> is \<^verbatim>\<open>gob.NewDecoder(bytes.NewReader(bs)).Decode(v)\<close> into a variable
  that held \<open>old\<close>.
\<close>

datatype 'v any = NilAny | Bytes "byte list" | Val 'v

text \<open>
  The body of the loop of \<^verbatim>\<open>SplitData\<close> for index \<open>i\<close>: the value stored in \<^verbatim>\<open>a[i]\<close>.
  \<^verbatim>\<open>encodedData[start:end]\<close> is \<open>take (end - start) (drop start data)\<close>; the source
  guards \<open>start < dataLength\<close> and \<open>end \<le> dataLength\<close> before slicing.
\<close>

definition split_range :: "byte list \<Rightarrow> nat \<Rightarrow> nat \<Rightarrow> nat \<Rightarrow> byte list" where
  "split_range encodedData partSize chunks i =
     (let dataLength = length encodedData;
          start = i * partSize;
          end0 = start + partSize;
          end = (if i = chunks - 1 \<or> end0 > dataLength then dataLength else end0)
      in if start \<ge> dataLength then [] else take (end - start) (drop start encodedData))"

text \<open>\<^verbatim>\<open>partSize := dataLength / chunks; if partSize == 0 && dataLength > 0 { partSize = 1 }\<close>\<close>

definition part_size :: "nat \<Rightarrow> nat \<Rightarrow> nat" where
  "part_size dataLength chunks =
     (let partSize = dataLength div chunks
      in if partSize = 0 \<and> dataLength > 0 then 1 else partSize)"

definition SplitData ::
  "('v any \<Rightarrow> byte list option) \<Rightarrow> 'v any \<Rightarrow> 'v any list \<Rightarrow> int \<Rightarrow> error + 'v any list" where
  "SplitData gob_enc v a chunks =
     (if v = NilAny then Inl ErrNilInput
      else if chunks < MinChunks then Inl ErrMinChunks
      else if int (length a) \<noteq> chunks then Inl ErrSliceLen
      else case gob_enc v of
             None \<Rightarrow> Inl ErrGobEncode
           | Some encodedData \<Rightarrow>
               let partSize = part_size (length encodedData) (nat chunks)
               in Inr (fold (\<lambda>i a. a[i := Bytes (split_range encodedData partSize (nat chunks) i)])
                         [0..<nat chunks] a))"

text \<open>The loop of \<^verbatim>\<open>MergeData\<close>: \<^verbatim>\<open>combined = append(combined, b...)\<close> for every part.\<close>

fun combine :: "nat \<Rightarrow> 'v any list \<Rightarrow> byte list \<Rightarrow> error + byte list" where
  "combine i [] combined = Inr combined"
| "combine i (Bytes b # parts) combined = combine (Suc i) parts (combined @ b)"
| "combine i (_ # parts) combined = Inl (ErrNotBytes i)"

text \<open>\<^verbatim>\<open>MergeData(a, v)\<close>: \<open>v\<close> is \<open>None\<close> for a nil pointer, \<open>Some old\<close> otherwise.\<close>

definition MergeData ::
  "(byte list \<Rightarrow> 'v \<Rightarrow> 'v option) \<Rightarrow> 'v any list \<Rightarrow> 'v option \<Rightarrow> error + 'v" where
  "MergeData gob_dec a v =
     (case v of
        None \<Rightarrow> Inl ErrNilOutput
      | Some old \<Rightarrow>
          if a = [] then Inl ErrNoChunksProvided
          else (case combine 0 a [] of
                  Inl e \<Rightarrow> Inl e
                | Inr combined \<Rightarrow>
                    if combined = [] then Inl ErrNoData
                    else (case gob_dec combined old of
                            None \<Rightarrow> Inl ErrGobDecode
                          | Some v' \<Rightarrow> Inr v')))"

section \<open>Strings, formatting and paths (Go's standard library on Unix)\<close>

text \<open>\<^verbatim>\<open>[]byte(s)\<close> and \<^verbatim>\<open>string(b)\<close>: a Go string is its bytes.\<close>

definition bytes_of :: "string \<Rightarrow> byte list" where
  "bytes_of s = map (\<lambda>c. word_of_nat (of_char c)) s"

definition string_of :: "byte list \<Rightarrow> string" where
  "string_of b = map (\<lambda>x. char_of (unat x)) b"

text \<open>\<^verbatim>\<open>copy(dst, src)\<close>: the first \<open>min (len dst) (len src)\<close> elements are overwritten.\<close>

definition copy_into :: "'a list \<Rightarrow> 'a list \<Rightarrow> 'a list" where
  "copy_into dst src = take (length dst) src @ drop (length src) dst"

text \<open>\<^verbatim>\<open>bytes.Trim(b, "\x00")\<close>: leading and trailing zero bytes removed.\<close>

definition Trim0 :: "byte list \<Rightarrow> byte list" where
  "Trim0 b = rev (dropWhile (\<lambda>x. x = 0) (rev (dropWhile (\<lambda>x. x = 0) b)))"

text \<open>\<^verbatim>\<open>strings.HasPrefix\<close>, \<^verbatim>\<open>strings.HasSuffix\<close>, \<^verbatim>\<open>strings.TrimSuffix\<close>.\<close>

definition HasPrefix :: "string \<Rightarrow> string \<Rightarrow> bool" where
  "HasPrefix s pre = (take (length pre) s = pre)"

definition HasSuffix :: "string \<Rightarrow> string \<Rightarrow> bool" where
  "HasSuffix s suf = (length suf \<le> length s \<and> drop (length s - length suf) s = suf)"

definition TrimSuffix :: "string \<Rightarrow> string \<Rightarrow> string" where
  "TrimSuffix s suf = (if HasSuffix s suf then take (length s - length suf) s else s)"

text \<open>\<^verbatim>\<open>strings.Contains(s, sub)\<close>.\<close>

fun Contains :: "string \<Rightarrow> string \<Rightarrow> bool" where
  "Contains [] sub = (sub = [])"
| "Contains (c # cs) sub = (HasPrefix (c # cs) sub \<or> Contains cs sub)"

text \<open>
  \<^verbatim>\<open>strings.Replace(s, old, new, 1)\<close> for a non-empty \<open>old\<close>: the first (leftmost)
  occurrence of \<open>old\<close> is replaced, a string without one is returned as it is.
\<close>

fun Replace1 :: "string \<Rightarrow> string \<Rightarrow> string \<Rightarrow> string" where
  "Replace1 [] old new = []"
| "Replace1 (c # cs) old new =
     (if HasPrefix (c # cs) old then new @ drop (length old) (c # cs)
      else c # Replace1 cs old new)"

text \<open>\<^verbatim>\<open>%d\<close> and \<^verbatim>\<open>%04d\<close> of \<^verbatim>\<open>fmt.Sprintf\<close> for a non-negative integer.\<close>

definition digit_char :: "nat \<Rightarrow> char" where
  "digit_char d = ''0123456789'' ! d"

function itoa :: "nat \<Rightarrow> string" where
  "itoa n = (if n < 10 then [digit_char n] else itoa (n div 10) @ [digit_char (n mod 10)])"
  by pat_completeness auto
termination
  by (relation "measure (\<lambda>n. n)") auto

declare itoa.simps [simp del]

definition Sprintf_04d :: "nat \<Rightarrow> string" where
  "Sprintf_04d i = (let s = itoa i in replicate (4 - length s) (CHR ''0'') @ s)"

text \<open>\<^verbatim>\<open>fmt.Sprintf("%s_%04d.part", base, i)\<close>.\<close>

definition chunk_name :: "string \<Rightarrow> nat \<Rightarrow> string" where
  "chunk_name base i = base @ ''_'' @ Sprintf_04d i @ ''.part''"

text \<open>
  \<^verbatim>\<open>fmt.Sscanf(m[1], "%d", &idx)\<close> on a string of decimal digits: its value in base 10
  (leading zeros do not make it octal). On such a string the scan cannot fail.
\<close>

definition is_digit :: "char \<Rightarrow> bool" where
  "is_digit c = (c \<in> set ''0123456789'')"

definition digit_val :: "char \<Rightarrow> nat" where
  "digit_val c = of_char c - 48"

definition Sscanf_d :: "string \<Rightarrow> nat" where
  "Sscanf_d s = foldl (\<lambda>acc c. 10 * acc + digit_val c) 0 s"

text \<open>
  \<^verbatim>\<open>regexp.MustCompile(`_(\d{4})\.part$`).FindStringSubmatch(name)\<close>: the pattern ends
  at the end of the text and matches exactly ten bytes, so there is a match exactly when
  the name ends with an underscore, four ASCII digits and \<^verbatim>\<open>.part\<close>; the result is then
  the match and its one group (\<open>len(m) = 2\<close>), and \<open>Some\<close> of the group here.
\<close>

definition FindStringSubmatch :: "string \<Rightarrow> string option" where
  "FindStringSubmatch name =
     (let n = length name;
          tail = drop (n - 10) name
      in if n \<ge> 10 \<and> hd tail = CHR ''_'' \<and> list_all is_digit (take 4 (drop 1 tail))
            \<and> drop 5 tail = ''.part''
         then Some (take 4 (drop 1 tail)) else None)"

text \<open>
  \<^verbatim>\<open>path/filepath\<close> on Unix. \<open>Clean\<close> follows the rules \<^verbatim>\<open>filepath.Clean\<close> documents:
  separators are merged, \<^verbatim>\<open>.\<close> elements dropped, an inner \<^verbatim>\<open>..\<close> removes the element
  before it, a \<^verbatim>\<open>..\<close> at the root is dropped, the empty path is \<^verbatim>\<open>.\<close>. The elements
  kept so far are held in a stack, last element first.
\<close>

fun split_slash :: "string \<Rightarrow> string list" where
  "split_slash [] = [[]]"
| "split_slash (c # cs) =
     (if c = CHR ''/'' then [] # split_slash cs
      else (case split_slash cs of [] \<Rightarrow> [[c]] | w # ws \<Rightarrow> (c # w) # ws))"

fun join_slash :: "string list \<Rightarrow> string" where
  "join_slash [] = []"
| "join_slash [c] = c"
| "join_slash (c # cs) = c @ ''/'' @ join_slash cs"

definition clean_step :: "bool \<Rightarrow> string list \<Rightarrow> string \<Rightarrow> string list" where
  "clean_step rooted st elem =
     (if elem = [] \<or> elem = ''.'' then st
      else if elem = ''..'' then
        (case st of
           [] \<Rightarrow> if rooted then [] else [''..'']
         | t # ts \<Rightarrow> if t = ''..'' then ''..'' # st else ts)
      else elem # st)"

definition rooted :: "string \<Rightarrow> bool" where
  "rooted path = (path \<noteq> [] \<and> hd path = CHR ''/'')"

definition clean_elems :: "string \<Rightarrow> string list" where
  "clean_elems path = rev (foldl (clean_step (rooted path)) [] (split_slash path))"

definition render :: "bool \<Rightarrow> string list \<Rightarrow> string" where
  "render r st = (if r then CHR ''/'' # join_slash st else if st = [] then ''.'' else join_slash st)"

definition Clean :: "string \<Rightarrow> string" where
  "Clean path = (if path = [] then ''.'' else render (rooted path) (clean_elems path))"

text \<open>\<^verbatim>\<open>filepath.Join(a, b)\<close>: empty elements are ignored, the result is cleaned.\<close>

definition Join :: "string \<Rightarrow> string \<Rightarrow> string" where
  "Join a b = (if a \<noteq> [] then Clean (a @ ''/'' @ b) else if b \<noteq> [] then Clean b else [])"

text \<open>The last element of a path: the bytes after the last separator.\<close>

definition last_elem :: "string \<Rightarrow> string" where
  "last_elem path = rev (takeWhile (\<lambda>c. c \<noteq> CHR ''/'') (rev path))"

text \<open>\<^verbatim>\<open>filepath.Dir\<close>: all but the last element, cleaned.\<close>

definition Dir :: "string \<Rightarrow> string" where
  "Dir path = Clean (take (length path - length (last_elem path)) path)"

text \<open>\<^verbatim>\<open>filepath.Base\<close>: trailing separators stripped, then the last element.\<close>

definition Base :: "string \<Rightarrow> string" where
  "Base path =
     (if path = [] then ''.''
      else let b = last_elem (rev (dropWhile (\<lambda>c. c = CHR ''/'') (rev path)))
           in if b = [] then ''/'' else b)"

text \<open>\<^verbatim>\<open>filepath.Ext\<close>: the suffix of the last element from its last dot.\<close>

definition Ext :: "string \<Rightarrow> string" where
  "Ext path =
     (let e = last_elem path
      in if CHR ''.'' \<in> set e
         then CHR ''.'' # rev (takeWhile (\<lambda>c. c \<noteq> CHR ''.'') (rev e)) else [])"

section \<open>Chunk discovery\<close>

text \<open>
  \<^verbatim>\<open>type parsedChunk struct { first bool; name string; index int }\<close>, and an
  \<^verbatim>\<open>os.DirEntry\<close> as the two things \<^verbatim>\<open>checkFiles\<close> asks of it.
\<close>

record parsedChunk =
  first :: bool
  name :: string
  index :: nat

record DirEntry =
  Name_of :: string
  IsDir :: bool

text \<open>
  One pass of the loop of \<^verbatim>\<open>checkFiles\<close> over an entry: \<open>None\<close> for a
  \<^verbatim>\<open>continue\<close>, the chunk appended otherwise.
\<close>

definition parse_entry :: "string \<Rightarrow> DirEntry \<Rightarrow> parsedChunk option" where
  "parse_entry dir e =
     (if IsDir e then None
      else case FindStringSubmatch (Name_of e) of
             None \<Rightarrow> None
           | Some m1 \<Rightarrow>
               let idx = Sscanf_d m1
               in Some \<lparr> first = (idx = 0), name = Join dir (Name_of e), index = idx \<rparr>)"

text \<open>
  \<^verbatim>\<open>sort.Slice(chunks, func(i, j int) bool { return chunks[i].index < chunks[j].index })\<close>.
  For up to twelve elements Go runs this insertion sort: each element moves left past
  the elements whose index is strictly larger. Longer slices are sorted by a quicksort
  variant with the same result whenever the indices are pairwise distinct. \<open>sorted_rev\<close>
  is the sorted prefix, last element first.
\<close>

fun insert_left :: "parsedChunk \<Rightarrow> parsedChunk list \<Rightarrow> parsedChunk list" where
  "insert_left c [] = [c]"
| "insert_left c (p # sorted_rev) =
     (if index c < index p then p # insert_left c sorted_rev else c # p # sorted_rev)"

definition sort_Slice :: "parsedChunk list \<Rightarrow> parsedChunk list" where
  "sort_Slice chunks = rev (fold insert_left chunks [])"

text \<open>\<^verbatim>\<open>checkFiles\<close> after \<^verbatim>\<open>os.ReadDir\<close> has returned \<open>entries\<close>.\<close>

definition checkFiles_entries :: "string \<Rightarrow> DirEntry list \<Rightarrow> parsedChunk list" where
  "checkFiles_entries dir entries = sort_Slice (List.map_filter (parse_entry dir) entries)"

section \<open>The file system (package os)\<close>

text \<open>
  The files and directories the package touches, by cleaned path. The root and the
  working directory always exist. Every operation resolves its path with \<open>Clean\<close> and
  fails on the empty path; links, permissions and a full disk are not modelled, so an
  operation fails only where the tree itself forbids it.
\<close>

datatype node = File "byte list" | Directory

type_synonym filesystem = "(string \<times> node) list"

definition lookup :: "filesystem \<Rightarrow> string \<Rightarrow> node option" where
  "lookup fs p = (if p = ''/'' \<or> p = ''.'' then Some Directory else map_of fs p)"

definition fs_del :: "string \<Rightarrow> filesystem \<Rightarrow> filesystem" where
  "fs_del p fs = filter (\<lambda>e. fst e \<noteq> p) fs"

definition fs_put :: "string \<Rightarrow> node \<Rightarrow> filesystem \<Rightarrow> filesystem" where
  "fs_put p n fs = (p, n) # fs_del p fs"

text \<open>\<^verbatim>\<open>os.Open\<close>: the node at the path, if any (a directory can be opened, not read).\<close>

definition os_Open :: "filesystem \<Rightarrow> string \<Rightarrow> node option" where
  "os_Open fs p = (if p = [] then None else lookup fs (Clean p))"

text \<open>
  \<^verbatim>\<open>os.Create\<close> and \<^verbatim>\<open>os.WriteFile\<close> open with create and truncate: the parent must be
  a directory and the path must not be one.
\<close>

definition os_WriteFile :: "filesystem \<Rightarrow> string \<Rightarrow> byte list \<Rightarrow> filesystem option" where
  "os_WriteFile fs p data =
     (if p = [] then None
      else let k = Clean p
           in if lookup fs k = Some Directory \<or> lookup fs (Dir k) \<noteq> Some Directory then None
              else Some (fs_put k (File data) fs))"

definition os_Create :: "filesystem \<Rightarrow> string \<Rightarrow> filesystem option" where
  "os_Create fs p = os_WriteFile fs p []"

text \<open>\<^verbatim>\<open>os.Remove\<close>: a file, or a directory without entries.\<close>

definition os_Remove :: "filesystem \<Rightarrow> string \<Rightarrow> filesystem option" where
  "os_Remove fs p =
     (if p = [] then None
      else let k = Clean p
           in case lookup fs k of
                None \<Rightarrow> None
              | Some (File d) \<Rightarrow> Some (fs_del k fs)
              | Some Directory \<Rightarrow>
                  if k = ''/'' \<or> k = ''.'' \<or> (\<exists>e \<in> set fs. fst e \<noteq> k \<and> Dir (fst e) = k) then None
                  else Some (fs_del k fs))"

text \<open>
  \<^verbatim>\<open>os.MkdirAll\<close>: every missing directory on the way to the path is created; it fails
  when one of them is a file.
\<close>

fun is_file :: "node option \<Rightarrow> bool" where
  "is_file (Some (File b)) = True"
| "is_file _ = False"

definition ancestors :: "string \<Rightarrow> string list" where
  "ancestors p = map (\<lambda>k. render (rooted p) (take k (clean_elems p))) [1..<Suc (length (clean_elems p))]"

definition os_MkdirAll :: "filesystem \<Rightarrow> string \<Rightarrow> filesystem option" where
  "os_MkdirAll fs p =
     (if p = [] \<or> (\<exists>d \<in> set (ancestors p). is_file (lookup fs d)) then None
      else Some (fold (\<lambda>d fs. if lookup fs d = None then fs_put d Directory fs else fs)
                   (ancestors p) fs))"

text \<open>
  \<^verbatim>\<open>os.ReadDir\<close>: the entries of a directory, sorted by file name (bytewise).
\<close>

definition dir_entries :: "filesystem \<Rightarrow> string \<Rightarrow> DirEntry list" where
  "dir_entries fs d =
     map (\<lambda>q. \<lparr> Name_of = Base q, IsDir = (map_of fs q = Some Directory) \<rparr>)
       (filter (\<lambda>q. Clean q = q \<and> Dir q = d \<and> q \<noteq> d) (remdups (map fst fs)))"

definition os_ReadDir :: "filesystem \<Rightarrow> string \<Rightarrow> DirEntry list option" where
  "os_ReadDir fs p =
     (if p \<noteq> [] \<and> lookup fs (Clean p) = Some Directory
      then Some (sort_key Name_of (dir_entries fs (Clean p))) else None)"

section \<open>Splitting and merging files\<close>

text \<open>
  What a call returns: the error (or \<open>None\<close> for \<^verbatim>\<open>nil\<close>) and the file system it
  leaves, or \<open>Diverges\<close> when the call does not return.
\<close>

datatype result = Done "error option" filesystem | Diverges

text \<open>
  \<^verbatim>\<open>injectMetadata(chunkPath, meta)\<close>; \<open>dstName\<close> is the path it computes for the
  destination. When the destination is the source file itself,
  \<^verbatim>\<open>os.Create\<close> empties it, the header is written, and \<^verbatim>\<open>io.Copy\<close> then reads what it
  is appending: the copy does not end.
\<close>

definition dstName :: "string \<Rightarrow> string" where
  "dstName chunkPath =
     (let dir = Dir chunkPath;
          base = Base chunkPath;
          baseWithoutExt = TrimSuffix base (Ext base)
      in Join dir (baseWithoutExt @ ''.part''))"

definition injectMetadata :: "filesystem \<Rightarrow> string \<Rightarrow> metadata \<Rightarrow> result" where
  "injectMetadata fs chunkPath meta =
     (case os_Open fs chunkPath of
        None \<Rightarrow> Done (Some ErrOpenSource) fs
      | Some src \<Rightarrow>
          (case os_Create fs (dstName chunkPath) of
             None \<Rightarrow> Done (Some ErrCreateDest) fs
           | Some fs1 \<Rightarrow>
               let dst = Clean (dstName chunkPath);
                   fs2 = fs_put dst (File (encode_metadata meta)) fs1
               in (case src of
                     Directory \<Rightarrow> Done (Some ErrInjectCopy) fs2
                   | File content \<Rightarrow>
                       if dst = Clean chunkPath
                       then (if encode_metadata meta = [] then
                               (case os_Remove fs2 chunkPath of
                                  None \<Rightarrow> Done (Some ErrRemoveTemp) fs2
                                | Some fs4 \<Rightarrow> Done None fs4)
                             else Diverges)
                       else
                         let fs3 = fs_put dst (File (encode_metadata meta @ content)) fs2
                         in (case os_Remove fs3 chunkPath of
                               None \<Rightarrow> Done (Some ErrRemoveTemp) fs3
                             | Some fs4 \<Rightarrow> Done None fs4))))"

text \<open>
  An open \<^verbatim>\<open>*os.File\<close> positioned at its start: the name it was opened with and its
  bytes. \<^verbatim>\<open>file.Stat()\<close> and \<^verbatim>\<open>file.Read\<close> of such a file do not fail.
\<close>

record os_File =
  file_name :: string
  contents :: "byte list"

text \<open>
  The loop of \<^verbatim>\<open>SplitFile\<close>. \<^verbatim>\<open>file.Read(buf)\<close> returns the next
  \<open>min (len buf) (bytes left)\<close> bytes, and \<^verbatim>\<open>0, io.EOF\<close> when none is left; with an
  empty buffer it would return \<^verbatim>\<open>0, nil\<close> for ever. \<open>hashed\<close> is what
  \<^verbatim>\<open>hash.Write\<close> has been given, \<open>H\<close> is SHA-256 (\<^verbatim>\<open>hash.Sum(nil)\<close> of it), and
  \<open>chunk_path\<close> is the value of \<^verbatim>\<open>fullPath\<close> in pass \<open>i\<close>.
\<close>

definition chunk_path :: "string \<Rightarrow> string \<Rightarrow> nat \<Rightarrow> string" where
  "chunk_path outDir nameBase i =
     (let chunkName = chunk_name (TrimSuffix nameBase (Ext nameBase)) i;
          fullPath = Join outDir chunkName
      in if i = 0 then Replace1 fullPath ''part'' ''tmp'' else fullPath)"

function split_loop ::
  "(byte list \<Rightarrow> byte list) \<Rightarrow> nat \<Rightarrow> string \<Rightarrow> string \<Rightarrow> metadata \<Rightarrow> nat \<Rightarrow> byte list
     \<Rightarrow> byte list \<Rightarrow> string \<Rightarrow> filesystem \<Rightarrow> result" where
  "split_loop H chunkSize outDir nameBase meta i unread hashed firstChunk fs =
     (if min chunkSize (length unread) > 0 then
        (let n = min chunkSize (length unread);
             fullPath = chunk_path outDir nameBase i;
             firstChunk' = (if i = 0 then fullPath else firstChunk)
         in (case os_WriteFile fs fullPath (take n unread) of
               None \<Rightarrow> Done (Some ErrWriteChunk) fs
             | Some fs' \<Rightarrow>
                 split_loop H chunkSize outDir nameBase meta (Suc i) (drop n unread)
                   (hashed @ take n unread) firstChunk' fs'))
      else if unread = [] then
        injectMetadata fs firstChunk (meta \<lparr> Hash := copy_into (Hash meta) (H hashed) \<rparr>)
      else Diverges)"
  by pat_completeness auto
termination
  by (relation "measure (\<lambda>(H, chunkSize, outDir, nameBase, meta, i, unread, r). length unread)")
    auto

declare split_loop.simps [simp del]

text \<open>\<^verbatim>\<open>SplitFile(file, outDir, chunks)\<close> at the time \<open>now\<close> (\<^verbatim>\<open>time.Now().Unix()\<close>).\<close>

definition SplitFile ::
  "(byte list \<Rightarrow> byte list) \<Rightarrow> 64 word \<Rightarrow> filesystem \<Rightarrow> os_File \<Rightarrow> string \<Rightarrow> int \<Rightarrow> result" where
  "SplitFile H now fs file outDir chunks =
     (if chunks < MinChunks then Done (Some ErrMinChunks) fs
      else let fileSize = length (contents file);
               chunkSize = fileSize div nat chunks + 1
           in (case os_MkdirAll fs outDir of
                 None \<Rightarrow> Done (Some ErrMkdir) fs
               | Some fs1 \<Rightarrow>
                   let nameBase = Base (file_name file);
                       meta = \<lparr> Hash = replicate 32 0,
                                Total = word_of_int chunks,
                                Size = word_of_nat fileSize,
                                Time = now,
                                Name = copy_into (replicate MaxFilenameLength 0)
                                         (bytes_of nameBase) \<rparr>
                   in split_loop H chunkSize outDir nameBase meta 0 (contents file) [] [] fs1))"

text \<open>\<^verbatim>\<open>extractMetadata(filePath, meta)\<close>.\<close>

definition extractMetadata :: "filesystem \<Rightarrow> string \<Rightarrow> error + metadata" where
  "extractMetadata fs filePath =
     (case os_Open fs filePath of
        None \<Rightarrow> Inl ErrExtractOpen
      | Some Directory \<Rightarrow> Inl ErrExtractRead
      | Some (File content) \<Rightarrow> decode_metadata content)"

text \<open>\<^verbatim>\<open>checkFiles(dir)\<close>.\<close>

definition checkFiles :: "filesystem \<Rightarrow> string \<Rightarrow> error + parsedChunk list" where
  "checkFiles fs dir =
     (case os_ReadDir fs dir of
        None \<Rightarrow> Inl ErrCheckFiles
      | Some entries \<Rightarrow> Inr (checkFiles_entries dir entries))"

text \<open>The removal loop that ends a successful merge; a failure is only printed.\<close>

definition remove_chunk :: "parsedChunk \<Rightarrow> filesystem \<Rightarrow> filesystem" where
  "remove_chunk c fs = (case os_Remove fs (name c) of None \<Rightarrow> fs | Some fs' \<Rightarrow> fs')"

text \<open>
  The copy loop of \<^verbatim>\<open>MergeFile\<close> and what follows it. \<open>outPath\<close> is the output file,
  \<open>hashed\<close> what the \<^verbatim>\<open>TeeReader\<close> has passed to the hash. A chunk that is the output
  file itself is read while it grows: unless the read starts at its end, the copy does
  not end.
\<close>

fun merge_loop ::
  "(byte list \<Rightarrow> byte list) \<Rightarrow> metadata \<Rightarrow> string \<Rightarrow> parsedChunk list \<Rightarrow> parsedChunk list
     \<Rightarrow> byte list \<Rightarrow> byte list \<Rightarrow> filesystem \<Rightarrow> result" where
  "merge_loop H meta outPath chunks [] hashed written fs =
     (if H hashed \<noteq> Hash meta then Done (Some ErrHashMismatch) fs
      else Done None (fold remove_chunk chunks fs))"
| "merge_loop H meta outPath chunks (chunk # rest) hashed written fs =
     (case os_Open fs (name chunk) of
        None \<Rightarrow> Done (Some ErrOpenChunk) fs
      | Some Directory \<Rightarrow> Done (Some ErrCopyChunk) fs
      | Some (File content) \<Rightarrow>
          let data = (if first chunk then drop metadata_size content else content)
          in if Clean (name chunk) = Clean outPath \<and> data \<noteq> [] then Diverges
             else merge_loop H meta outPath chunks rest (hashed @ data) (written @ data)
                    (fs_put (Clean outPath) (File (written @ data)) fs))"

text \<open>\<^verbatim>\<open>MergeFile(inDir)\<close>.\<close>

definition MergeFile :: "(byte list \<Rightarrow> byte list) \<Rightarrow> filesystem \<Rightarrow> string \<Rightarrow> result" where
  "MergeFile H fs inDir =
     (case checkFiles fs inDir of
        Inl e \<Rightarrow> Done (Some e) fs
      | Inr chunks \<Rightarrow>
          if chunks = [] then Done (Some ErrNoChunkFiles) fs
          else (case find first chunks of
                  None \<Rightarrow> Done (Some ErrNoFirstChunk) fs
                | Some c \<Rightarrow>
                    (case extractMetadata fs (name c) of
                       Inl e \<Rightarrow> Done (Some e) fs
                     | Inr meta \<Rightarrow>
                         let outputFileName = string_of (Trim0 (Name meta));
                             outPath = Join inDir outputFileName
                         in (case os_Create fs outPath of
                               None \<Rightarrow> Done (Some ErrCreateOutput) fs
                             | Some fs1 \<Rightarrow> merge_loop H meta outPath chunks chunks [] [] fs1))))"

section \<open>Example inputs\<close>

text \<open>Concrete inputs on which the theorems below are instantiated.\<close>

definition example_meta :: metadata where
  "example_meta = \<lparr> Hash = replicate 32 0xAB, Total = 0x01020304, Size = 10, Time = 0x11223344,
       Name = copy_into (replicate 46 0) (bytes_of ''data.txt'') \<rparr>"

text \<open>A stand-in for gob on numbers below 256: six fixed bytes and the number.\<close>

definition gob7 :: "nat any \<Rightarrow> byte list option" where
  "gob7 v = (case v of Val k \<Rightarrow> Some [1, 2, 3, 4, 5, 6, of_nat k] | _ \<Rightarrow> None)"

definition ungob7 :: "byte list \<Rightarrow> nat \<Rightarrow> nat option" where
  "ungob7 bs old = (if length bs = 7 then Some (unat (bs ! 6)) else None)"


section \<open>Normal form of cleaned paths\<close>

text \<open>
  Predicates used to reason about \<open>Clean\<close>: a proper element is one \<open>Clean\<close> keeps as it
  is, and a stack (last element first) is normal when it holds proper elements followed
  by the leading \<^verbatim>\<open>..\<close> elements of a relative path.
\<close>

definition proper :: "string \<Rightarrow> bool" where
  "proper c = (c \<noteq> [] \<and> c \<noteq> ''.'' \<and> c \<noteq> ''..'' \<and> CHR ''/'' \<notin> set c)"

definition normal_rev :: "bool \<Rightarrow> string list \<Rightarrow> bool" where
  "normal_rev r acc = (\<exists>ks k. acc = ks @ replicate k ''..'' \<and> (\<forall>c \<in> set ks. proper c) \<and> (r \<longrightarrow> k = 0))"

text \<open>
  A stand-in for SHA-256 in concrete runs (31 zero bytes and the sum of the input), two
  source files, and two observations of a file system: the number of chunks
  \<^verbatim>\<open>checkFiles\<close> finds in a directory and the \<^verbatim>\<open>Total\<close> field of the header of a file.
\<close>

definition toy_digest :: "byte list \<Rightarrow> byte list" where
  "toy_digest bs = replicate 31 0 @ [sum_list bs]"

definition empty_file :: os_File where
  "empty_file = \<lparr> file_name = ''/src/data.txt'', contents = [] \<rparr>"

definition abcd_file :: os_File where
  "abcd_file = \<lparr> file_name = ''/src/data.txt'', contents = bytes_of ''abcd'' \<rparr>"

definition fragment_count :: "filesystem \<Rightarrow> string \<Rightarrow> nat" where
  "fragment_count fs dir = (case checkFiles fs dir of Inl e \<Rightarrow> 0 | Inr chunks \<Rightarrow> length chunks)"

definition header_Total :: "filesystem \<Rightarrow> string \<Rightarrow> 32 word option" where
  "header_Total fs p = (case extractMetadata fs p of Inl e \<Rightarrow> None | Inr meta \<Rightarrow> Some (Total meta))"

section \<open>Lemmas: the codec\<close>

lemma byte_slice:
  fixes v :: "'a::len word"
  assumes "k + 8 \<le> LENGTH('a)"
  shows "bit (push_bit k (ucast (ucast (drop_bit k v) :: byte)) :: 'a word) n
           \<longleftrightarrow> k \<le> n \<and> n < k + 8 \<and> bit v n"
  using assms by (auto simp: bit_simps dest: bit_imp_le_length)

lemma byte_slice0:
  fixes v :: "'a::len word"
  assumes "8 \<le> LENGTH('a)"
  shows "bit (ucast (ucast v :: byte) :: 'a word) n \<longleftrightarrow> n < 8 \<and> bit v n"
  using assms by (auto simp: bit_simps dest: bit_imp_le_length)

lemma Uint32_PutUint32: "Uint32 (PutUint32 v) = v"
  unfolding Uint32_def PutUint32_def
  apply (rule bit_word_eqI)
  apply (simp add: bit_or_iff byte_slice byte_slice0)
  apply (auto dest: bit_imp_le_length)
  done

lemma Uint64_PutUint64: "Uint64 (PutUint64 v) = v"
  unfolding Uint64_def PutUint64_def
  apply (rule bit_word_eqI)
  apply (simp add: bit_or_iff byte_slice byte_slice0)
  apply (auto dest: bit_imp_le_length)
  done

lemma length_PutUint32: "length (PutUint32 v) = 4"
  by (simp add: PutUint32_def)

lemma length_PutUint64: "length (PutUint64 v) = 8"
  by (simp add: PutUint64_def)

lemma length_encode_metadata:
  "wf_metadata m \<Longrightarrow> length (encode_metadata m) = metadata_size"
  by (simp add: encode_metadata_def wf_metadata_def MaxFilenameLength_def metadata_size_def
      length_PutUint32 length_PutUint64)

lemma decode_encode_metadata:
  assumes "wf_metadata m"
  shows "decode_metadata (encode_metadata m @ rest) = Inr m"
proof -
  have h: "length (Hash m) = 32" and n: "length (Name m) = 46"
    using assms by (simp_all add: wf_metadata_def MaxFilenameLength_def)
  have "decode_metadata (encode_metadata m @ rest) =
          Inr \<lparr> Hash = Hash m, Total = Uint32 (PutUint32 (Total m)),
                Size = Uint64 (PutUint64 (Size m)), Time = Uint64 (PutUint64 (Time m)),
                Name = Name m \<rparr>"
    by (simp add: decode_metadata_def encode_metadata_def metadata_size_def h n
        length_PutUint32 length_PutUint64)
  then show ?thesis
    by (simp add: Uint32_PutUint32 Uint64_PutUint64)
qed

section \<open>Lemmas: the generic splitter\<close>

lemma fold_list_update_upt:
  "n \<le> length a \<Longrightarrow> fold (\<lambda>i a. a[i := f i]) [0..<n] a = map f [0..<n] @ drop n a"
proof (induction n)
  case 0
  then show ?case by simp
next
  case (Suc n)
  then have "n < length a" by simp
  then have "drop n a = a ! n # drop (Suc n) a"
    by (simp add: Cons_nth_drop_Suc)
  with Suc show ?case
    by (simp add: list_update_append)
qed

lemma part_size_mult_le:
  assumes "i < n" 
  shows "i * part_size len n < len \<Longrightarrow> Suc i < n \<Longrightarrow> Suc i * part_size len n \<le> len"
proof -
  assume a: "i * part_size len n < len" and b: "Suc i < n"
  show ?thesis
  proof (cases "len div n = 0")
    case True
    with a have "part_size len n = 1" by (auto simp: part_size_def Let_def)
    with a show ?thesis by simp
  next
    case False
    then have ps: "part_size len n = len div n" by (simp add: part_size_def)
    have "Suc i * (len div n) \<le> n * (len div n)"
      using b by (intro mult_le_mono1) simp
    also have "\<dots> \<le> len" by simp
    finally show ?thesis using ps by simp
  qed
qed

lemma split_range_inner:
  assumes "Suc i < n"
  shows "split_range data (part_size (length data) n) n i
           = take (part_size (length data) n) (drop (i * part_size (length data) n) data)"
proof (cases "i * part_size (length data) n < length data")
  case True
  have "Suc i * part_size (length data) n \<le> length data"
    using part_size_mult_le[of i n "length data"] assms True by simp
  then show ?thesis using True assms
    by (auto simp: split_range_def Let_def)
next
  case False
  then show ?thesis by (simp add: split_range_def Let_def)
qed

lemma split_range_last:
  "0 < n \<Longrightarrow> split_range data ps n (n - 1) = drop ((n - 1) * ps) data"
  by (auto simp: split_range_def Let_def)

lemma concat_take_drop:
  "concat (map (\<lambda>i. take ps (drop (i * ps) data)) [0..<k]) = take (k * ps) data"
proof (induction k)
  case 0
  show ?case by simp
next
  case (Suc k)
  have "take (Suc k * ps) data = take (k * ps) data @ take ps (drop (k * ps) data)"
    using take_add[of "k * ps" ps data] by (simp add: add.commute)
  with Suc show ?case by simp
qed

lemma concat_split_ranges:
  assumes "0 < n"
  shows "concat (map (split_range data (part_size (length data) n) n) [0..<n]) = data"
proof -
  obtain k where k: "n = Suc k" using assms by (cases n) auto
  have "map (split_range data (part_size (length data) n) n) [0..<k]
          = map (\<lambda>i. take (part_size (length data) n) (drop (i * part_size (length data) n) data)) [0..<k]"
    using k by (intro map_cong) (auto simp: split_range_inner)
  then have "concat (map (split_range data (part_size (length data) n) n) [0..<k])
          = take (k * part_size (length data) n) data"
    by (simp only: concat_take_drop)
  moreover have "split_range data (part_size (length data) n) n k
          = drop (k * part_size (length data) n) data"
    using split_range_last[of n data "part_size (length data) n"] k by simp
  ultimately show ?thesis
    using k by simp
qed

lemma combine_Bytes: "combine i (map Bytes rs) acc = Inr (acc @ concat rs)"
  by (induction rs arbitrary: i acc) simp_all

lemma SplitData_ranges:
  assumes "v \<noteq> NilAny" "2 \<le> chunks" "int (length a) = chunks" "gob_enc v = Some data"
  shows "SplitData gob_enc v a chunks
           = Inr (map (\<lambda>i. Bytes (split_range data (part_size (length data) (nat chunks)) (nat chunks) i))
                    [0..<nat chunks])"
proof -
  have "nat chunks \<le> length a" using assms by simp
  moreover have "drop (nat chunks) a = []" using assms by simp
  ultimately show ?thesis
    using assms fold_list_update_upt[of "nat chunks" a
        "\<lambda>i. Bytes (split_range data (part_size (length data) (nat chunks)) (nat chunks) i)"]
    by (simp add: SplitData_def MinChunks_def)
qed

lemma part_size_spec:
  "part_size len n = (if 0 < len then max 1 (len div n) else 0)"
  by (auto simp: part_size_def Let_def max_def)

section \<open>Lemmas: chunk discovery\<close>









lemma FindStringSubmatch_iff:
  "FindStringSubmatch nm = Some d \<longleftrightarrow>
     (\<exists>pre. nm = pre @ ''_'' @ d @ ''.part'' \<and> length d = 4 \<and> list_all is_digit d)"
proof
  assume a: "FindStringSubmatch nm = Some d"
  define tail where "tail = drop (length nm - 10) nm"
  from a have n: "length nm \<ge> 10" and h: "hd tail = CHR ''_''"
    and dg: "list_all is_digit (take 4 (drop 1 tail))" and p: "drop 5 tail = ''.part''"
    and d: "d = take 4 (drop 1 tail)"
    by (auto simp: FindStringSubmatch_def Let_def tail_def split: if_splits)
  have lt: "length tail = 10" using n by (simp add: tail_def)
  then have "tail \<noteq> []" by auto
  then have "tail = hd tail # drop 1 tail" by (cases tail) auto
  also have "drop 1 tail = take 4 (drop 1 tail) @ drop 4 (drop 1 tail)"
    by (simp only: append_take_drop_id)
  finally have "tail = ''_'' @ d @ ''.part''" using h p d by simp
  moreover have "nm = take (length nm - 10) nm @ tail" by (simp add: tail_def)
  moreover have "length d = 4" using d lt by simp
  ultimately show "\<exists>pre. nm = pre @ ''_'' @ d @ ''.part'' \<and> length d = 4 \<and> list_all is_digit d"
    using dg d by metis
next
  assume "\<exists>pre. nm = pre @ ''_'' @ d @ ''.part'' \<and> length d = 4 \<and> list_all is_digit d"
  then obtain pre where n: "nm = pre @ ''_'' @ d @ ''.part''" and l: "length d = 4"
    and dg: "list_all is_digit d" by blast
  have "length nm = length pre + 10" using n l by simp
  then have t: "drop (length nm - 10) nm = CHR ''_'' # d @ ''.part''" using n by simp
  have t1: "take 4 (drop 1 (CHR ''_'' # d @ ''.part'')) = d" using l by simp
  have t2: "drop 5 (CHR ''_'' # d @ ''.part'') = ''.part''" using l by simp
  have t3: "10 \<le> length nm" using \<open>length nm = length pre + 10\<close> by simp
  show "FindStringSubmatch nm = Some d"
    unfolding FindStringSubmatch_def Let_def t t1 t2 using dg t3 by simp
qed







section \<open>Lemmas: paths\<close>

lemma split_slash_nonempty: "split_slash p \<noteq> []"
  by (induction p) (auto split: list.splits)

lemma split_slash_append:
  "split_slash (p @ CHR ''/'' # q) = split_slash p @ split_slash q"
proof (induction p)
  case Nil
  show ?case by simp
next
  case (Cons c p)
  obtain w ws where w: "split_slash p = w # ws"
    using split_slash_nonempty[of p] by (cases "split_slash p") auto
  show ?case using Cons w by simp
qed

lemma split_slash_no_slash: "CHR ''/'' \<notin> set e \<Longrightarrow> split_slash e = [e]"
  by (induction e) auto

lemma split_slash_elems: "c \<in> set (split_slash p) \<Longrightarrow> CHR ''/'' \<notin> set c"
proof (induction p arbitrary: c)
  case Nil
  then show ?case by simp
next
  case (Cons a p)
  obtain w ws where w: "split_slash p = w # ws"
    using split_slash_nonempty[of p] by (cases "split_slash p") auto
  show ?case
  proof (cases "a = CHR ''/''")
    case True
    with Cons show ?thesis by auto
  next
    case False
    with Cons.prems w have "c = a # w \<or> c \<in> set ws" by simp
    then show ?thesis
      using Cons.IH[of w] Cons.IH[of c] w False by auto
  qed
qed

lemma join_slash_snoc:
  "join_slash (st @ [e]) = (if st = [] then e else join_slash st @ CHR ''/'' # e)"
proof (induction st)
  case Nil
  show ?case by simp
next
  case (Cons c st)
  then show ?case by (cases st) simp_all
qed

lemma split_join_slash:
  "st \<noteq> [] \<Longrightarrow> \<forall>c \<in> set st. CHR ''/'' \<notin> set c \<Longrightarrow> split_slash (join_slash st) = st"
proof (induction st rule: rev_induct)
  case Nil
  then show ?case by simp
next
  case (snoc e st)
  show ?case
  proof (cases "st = []")
    case True
    with snoc.prems show ?thesis by (simp add: split_slash_no_slash)
  next
    case False
    with snoc show ?thesis
      by (simp add: join_slash_snoc split_slash_append split_slash_no_slash)
  qed
qed

lemma normal_revI:
  "\<forall>c \<in> set ks. proper c \<Longrightarrow> (r \<longrightarrow> k = 0) \<Longrightarrow> normal_rev r (ks @ replicate k ''..'')"
  unfolding normal_rev_def by blast

lemma clean_step_normal:
  assumes "normal_rev r acc" "CHR ''/'' \<notin> set c"
  shows "normal_rev r (clean_step r acc c)"
proof -
  from assms(1) obtain ks k where a: "acc = ks @ replicate k ''..''" "\<forall>c \<in> set ks. proper c" "r \<longrightarrow> k = 0"
    unfolding normal_rev_def by blast
  consider (skip) "c = [] \<or> c = ''.''" | (up) "c = ''..''" | (push) "proper c"
    using assms(2) unfolding proper_def by blast
  then show ?thesis
  proof cases
    case skip
    then have "clean_step r acc c = acc" by (auto simp: clean_step_def)
    then show ?thesis using assms(1) by simp
  next
    case push
    then have e: "clean_step r acc c = (c # ks) @ replicate k ''..''"
      using a by (auto simp: clean_step_def proper_def)
    have "\<forall>x \<in> set (c # ks). proper x" using a(2) push by simp
    then show ?thesis unfolding e using a(3) by (rule normal_revI)
  next
    case up
    show ?thesis
    proof (cases ks)
      case (Cons t ts)
      then have "proper t" using a by simp
      then have "t \<noteq> ''..''" by (simp add: proper_def)
      then have e: "clean_step r acc c = ts @ replicate k ''..''"
        using up a Cons by (simp add: clean_step_def)
      have "\<forall>x \<in> set ts. proper x" using a(2) Cons by simp
      then show ?thesis unfolding e using a(3) by (rule normal_revI)
    next
      case Nil
      show ?thesis
      proof (cases k)
        case 0
        show ?thesis
        proof (cases r)
          case True
          then have e: "clean_step r acc c = [] @ replicate 0 ''..''"
            using up a Nil 0 by (simp add: clean_step_def)
          show ?thesis unfolding e by (rule normal_revI) simp_all
        next
          case False
          then have e: "clean_step r acc c = [] @ replicate 1 ''..''"
            using up a Nil 0 by (simp add: clean_step_def)
          show ?thesis unfolding e by (rule normal_revI) (simp_all add: False)
        qed
      next
        case (Suc k')
        then have e: "clean_step r acc c = [] @ replicate (Suc k) ''..''"
          using up a Nil by (simp add: clean_step_def)
        have "\<not> r" using a Suc by simp
        then show ?thesis unfolding e by (intro normal_revI) simp_all
      qed
    qed
  qed
qed

lemma foldl_clean_step_normal:
  "normal_rev r acc \<Longrightarrow> \<forall>c \<in> set cs. CHR ''/'' \<notin> set c \<Longrightarrow> normal_rev r (foldl (clean_step r) acc cs)"
  by (induction cs arbitrary: acc) (auto simp: clean_step_normal)

lemma normal_rev_Nil: "normal_rev r []"
  using normal_revI[of "[]" r 0] by simp

lemma normal_clean_elems: "normal_rev (rooted p) (rev (clean_elems p))"
proof -
  have "\<forall>c \<in> set (split_slash p). CHR ''/'' \<notin> set c"
    using split_slash_elems by blast
  then have "normal_rev (rooted p) (foldl (clean_step (rooted p)) [] (split_slash p))"
    by (rule foldl_clean_step_normal[OF normal_rev_Nil])
  then show ?thesis by (simp add: clean_elems_def)
qed

lemma foldl_dots:
  "\<not> r \<Longrightarrow> foldl (clean_step r) (replicate j ''..'') (replicate k ''..'') = replicate (j + k) ''..''"
proof (induction k arbitrary: j)
  case 0
  show ?case by simp
next
  case (Suc k)
  have "clean_step r (replicate j ''..'') ''..'' = replicate (Suc j) ''..''"
    using Suc.prems by (cases j) (simp_all add: clean_step_def)
  then show ?case using Suc.IH[OF Suc.prems, of "Suc j"] by simp
qed

lemma foldl_proper:
  "\<forall>c \<in> set ks. proper c \<Longrightarrow> foldl (clean_step r) acc ks = rev ks @ acc"
proof (induction ks arbitrary: acc)
  case Nil
  show ?case by simp
next
  case (Cons c ks)
  then have "clean_step r acc c = c # acc" by (simp add: clean_step_def proper_def)
  with Cons show ?case by simp
qed

lemma refold_normal:
  assumes "normal_rev r acc"
  shows "foldl (clean_step r) [] (rev acc) = acc"
proof -
  from assms obtain ks k where a: "acc = ks @ replicate k ''..''" "\<forall>c \<in> set ks. proper c" "r \<longrightarrow> k = 0"
    unfolding normal_rev_def by blast
  have d: "foldl (clean_step r) [] (replicate k ''..'') = replicate k ''..''"
  proof (cases "k = 0")
    case True
    then show ?thesis by simp
  next
    case False
    then have "\<not> r" using a by simp
    then show ?thesis using foldl_dots[of r 0 k] by simp
  qed
  have "foldl (clean_step r) [] (rev acc) = foldl (clean_step r) (replicate k ''..'') (rev ks)"
    using a(1) d by simp
  also have "\<dots> = ks @ replicate k ''..''"
    using foldl_proper[of "rev ks" r] a(2) by simp
  finally show ?thesis using a(1) by simp
qed

lemma normal_rev_elems:
  assumes "normal_rev r acc" "c \<in> set acc"
  shows "c \<noteq> [] \<and> CHR ''/'' \<notin> set c"
proof -
  from assms(1) obtain ks k where a: "acc = ks @ replicate k ''..''" "\<forall>c \<in> set ks. proper c"
    unfolding normal_rev_def by blast
  from assms(2) a(1) have "c \<in> set ks \<or> c = ''..''" by auto
  then show ?thesis
  proof
    assume "c \<in> set ks"
    then have "proper c" using a(2) by blast
    then show ?thesis by (simp add: proper_def)
  next
    assume "c = ''..''"
    then show ?thesis by simp
  qed
qed

lemma clean_step_skip: "clean_step r acc [] = acc" "clean_step r acc ''.'' = acc"
  by (simp_all add: clean_step_def)

lemma hd_join_slash: "c \<noteq> [] \<Longrightarrow> hd (join_slash (c # cs)) = hd c"
  by (cases cs) simp_all

lemma join_slash_nonempty: "c \<noteq> [] \<Longrightarrow> join_slash (c # cs) \<noteq> []"
  by (cases cs) simp_all

lemma render_nonempty: "normal_rev r (rev st) \<Longrightarrow> render r st \<noteq> []"
proof (cases st)
  case Nil
  then show ?thesis by (simp add: render_def)
next
  case (Cons c cs)
  assume "normal_rev r (rev st)"
  then have "c \<noteq> []" using normal_rev_elems[of r "rev st" c] Cons by simp
  then show ?thesis using Cons join_slash_nonempty[of c cs] by (simp add: render_def)
qed

lemma rooted_render:
  assumes "normal_rev r (rev st)"
  shows "rooted (render r st) = r"
proof (cases r)
  case True
  then show ?thesis by (simp add: render_def rooted_def)
next
  case False
  show ?thesis
  proof (cases st)
    case Nil
    then show ?thesis using False by (simp add: render_def rooted_def)
  next
    case (Cons c cs)
    have c: "c \<noteq> [] \<and> CHR ''/'' \<notin> set c"
      using normal_rev_elems[OF assms, of c] Cons by simp
    then have "hd c \<noteq> CHR ''/''" by (cases c) auto
    then show ?thesis
      using False Cons hd_join_slash[of c cs] c by (simp add: render_def rooted_def)
  qed
qed

lemma foldl_split_render:
  assumes "normal_rev r (rev st)"
  shows "foldl (clean_step r) [] (split_slash (render r st)) = rev st"
proof -
  have sl: "\<forall>c \<in> set st. CHR ''/'' \<notin> set c"
    using normal_rev_elems[OF assms] by simp
  have re: "foldl (clean_step r) [] st = rev st"
    using refold_normal[OF assms] by simp
  show ?thesis
  proof (cases "st = []")
    case True
    then show ?thesis by (cases r) (simp_all add: render_def clean_step_skip)
  next
    case False
    then have "split_slash (join_slash st) = st"
      using split_join_slash sl by blast
    then show ?thesis
      using False re by (cases r) (simp_all add: render_def clean_step_skip)
  qed
qed

lemma clean_elems_render:
  assumes "normal_rev r (rev st)"
  shows "clean_elems (render r st) = st"
  using foldl_split_render[OF assms] rooted_render[OF assms]
  by (simp add: clean_elems_def)

lemma clean_elems_render_slash:
  assumes "normal_rev r (rev st)"
  shows "clean_elems (render r st @ ''/'') = st"
proof -
  have "rooted (render r st @ ''/'') = r"
    using rooted_render[OF assms] render_nonempty[OF assms] by (simp add: rooted_def)
  moreover have "split_slash (render r st @ ''/'') = split_slash (render r st) @ [[]]"
    using split_slash_append[of "render r st" "[]"] by simp
  ultimately show ?thesis
    using foldl_split_render[OF assms] by (simp add: clean_elems_def clean_step_skip)
qed

lemma Clean_render:
  assumes "normal_rev r (rev st)"
  shows "Clean (render r st) = render r st"
  using render_nonempty[OF assms] rooted_render[OF assms] clean_elems_render[OF assms]
  by (simp add: Clean_def)

lemma Clean_render_slash:
  assumes "normal_rev r (rev st)"
  shows "Clean (render r st @ ''/'') = render r st"
proof -
  have "rooted (render r st @ ''/'') = r"
    using rooted_render[OF assms] render_nonempty[OF assms] by (simp add: rooted_def)
  then show ?thesis
    using clean_elems_render_slash[OF assms] by (simp add: Clean_def)
qed

lemma Clean_eq_render: "p \<noteq> [] \<Longrightarrow> Clean p = render (rooted p) (clean_elems p)"
  by (simp add: Clean_def)

lemma Clean_nonempty: "Clean p \<noteq> []"
proof (cases "p = []")
  case True
  then show ?thesis by (simp add: Clean_def)
next
  case False
  then show ?thesis
    using render_nonempty[OF normal_clean_elems[of p]] by (simp add: Clean_def)
qed

lemma Clean_idem: "Clean (Clean p) = Clean p"
proof (cases "p = []")
  case True
  then show ?thesis by (simp add: Clean_def rooted_def clean_elems_def clean_step_def render_def)
next
  case False
  then show ?thesis
    using Clean_render[OF normal_clean_elems[of p]] by (simp add: Clean_def)
qed

lemma clean_elems_snoc:
  assumes "p \<noteq> []" "proper e"
  shows "clean_elems (p @ CHR ''/'' # e) = clean_elems p @ [e]"
proof -
  have r: "rooted (p @ CHR ''/'' # e) = rooted p"
    using assms(1) by (simp add: rooted_def)
  have "split_slash (p @ CHR ''/'' # e) = split_slash p @ [e]"
    using assms(2) by (simp add: split_slash_append split_slash_no_slash proper_def)
  moreover have "clean_step r acc e = e # acc" for r acc
    using assms(2) by (simp add: clean_step_def proper_def)
  ultimately show ?thesis
    using r by (simp add: clean_elems_def)
qed

lemma render_snoc:
  "render r (st @ [e]) =
     (if st = [] then (if r then CHR ''/'' # e else e) else render r st @ CHR ''/'' # e)"
  by (simp add: render_def join_slash_snoc)

lemma Join_proper:
  assumes "p \<noteq> []" "proper e"
  shows "Join p e = (if clean_elems p = [] then (if rooted p then CHR ''/'' # e else e)
                     else Clean p @ CHR ''/'' # e)"
proof -
  have r: "rooted (p @ CHR ''/'' # e) = rooted p"
    using assms(1) by (simp add: rooted_def)
  show ?thesis
    using assms clean_elems_snoc[OF assms] r
    by (simp add: Join_def Clean_def render_snoc)
qed


lemma takeWhile_all: "CHR ''/'' \<notin> set e \<Longrightarrow> takeWhile (\<lambda>c. c \<noteq> CHR ''/'') (rev e) = rev e"
  by (rule takeWhile_eq_all_conv[THEN iffD2]) auto

lemma last_elem_append:
  "CHR ''/'' \<notin> set e \<Longrightarrow> last_elem (y @ CHR ''/'' # e) = e"
proof -
  assume a: "CHR ''/'' \<notin> set e"
  have "takeWhile (\<lambda>c. c \<noteq> CHR ''/'') (rev e @ CHR ''/'' # rev y) = rev e"
    using takeWhile_tail[of "\<lambda>c. c \<noteq> CHR ''/''" "CHR ''/''" "rev e" "rev y"] takeWhile_all[OF a]
    by simp
  then show ?thesis by (simp add: last_elem_def)
qed

lemma last_elem_no_slash: "CHR ''/'' \<notin> set e \<Longrightarrow> last_elem e = e"
  by (simp add: last_elem_def takeWhile_all)

lemma Dir_slash: "CHR ''/'' \<notin> set e \<Longrightarrow> Dir (y @ CHR ''/'' # e) = Clean (y @ ''/'')"
  by (simp add: Dir_def last_elem_append)

lemma Base_slash:
  assumes "e \<noteq> []" "CHR ''/'' \<notin> set e"
  shows "Base (y @ CHR ''/'' # e) = e"
proof -
  have "last e \<noteq> CHR ''/''" using assms by (metis last_in_set)
  then have "dropWhile (\<lambda>c. c = CHR ''/'') (rev e @ CHR ''/'' # rev y) = rev e @ CHR ''/'' # rev y"
    using assms(1) by (cases e rule: rev_cases) auto
  then show ?thesis
    using assms by (simp add: Base_def last_elem_append)
qed

lemma Base_no_slash:
  assumes "e \<noteq> []" "CHR ''/'' \<notin> set e"
  shows "Base e = e"
proof -
  have "last e \<noteq> CHR ''/''" using assms by (metis last_in_set)
  then have "dropWhile (\<lambda>c. c = CHR ''/'') (rev e) = rev e"
    using assms(1) by (cases e rule: rev_cases) auto
  then show ?thesis
    using assms by (simp add: Base_def last_elem_no_slash)
qed

lemma Dir_no_slash: "CHR ''/'' \<notin> set e \<Longrightarrow> Dir e = ''.''"
  by (simp add: Dir_def last_elem_no_slash Clean_def)

lemma proper_props: "proper e \<Longrightarrow> e \<noteq> [] \<and> CHR ''/'' \<notin> set e"
  by (simp add: proper_def)

lemma Join_facts:
  assumes "p \<noteq> []" "proper e"
  shows "Dir (Join p e) = Clean p" and "Base (Join p e) = e" and "Clean (Join p e) = Join p e"
    and "Join p e \<noteq> []"
proof -
  have e: "e \<noteq> []" "CHR ''/'' \<notin> set e" using assms(2) by (simp_all add: proper_def)
  have n: "normal_rev (rooted p) (rev (clean_elems p))" by (rule normal_clean_elems)
  have cp: "Clean p = render (rooted p) (clean_elems p)" using assms(1) by (simp add: Clean_def)
  show "Clean (Join p e) = Join p e"
    using assms(1) by (simp add: Join_def Clean_idem)
  show "Join p e \<noteq> []"
    using assms(1) by (simp add: Join_def Clean_nonempty)
  show "Dir (Join p e) = Clean p"
  proof (cases "clean_elems p = []")
    case True
    show ?thesis
    proof (cases "rooted p")
      case True
      with \<open>clean_elems p = []\<close> have "Join p e = [] @ CHR ''/'' # e" "Clean p = ''/''"
        using Join_proper[OF assms] cp by (simp_all add: render_def)
      then show ?thesis
        using Dir_slash[OF e(2), of "[]"]
        by (simp add: Clean_def rooted_def clean_elems_def clean_step_def render_def)
    next
      case False
      with \<open>clean_elems p = []\<close> have "Join p e = e" "Clean p = ''.''"
        using Join_proper[OF assms] cp by (simp_all add: render_def)
      then show ?thesis using Dir_no_slash[OF e(2)] by simp
    qed
  next
    case False
    then have "Join p e = Clean p @ CHR ''/'' # e"
      using Join_proper[OF assms] by simp
    then show ?thesis
      using Dir_slash[OF e(2), of "Clean p"] Clean_render_slash[OF n] cp by simp
  qed
  show "Base (Join p e) = e"
  proof (cases "clean_elems p = []")
    case True
    then have "Join p e = [] @ CHR ''/'' # e \<or> Join p e = e"
      using Join_proper[OF assms] by simp
    then show ?thesis
      using Base_slash[OF e, of "[]"] Base_no_slash[OF e] by auto
  next
    case False
    then have "Join p e = Clean p @ CHR ''/'' # e"
      using Join_proper[OF assms] by simp
    then show ?thesis using Base_slash[OF e, of "Clean p"] by simp
  qed
qed

section \<open>Lemmas: formatting and chunk names\<close>

lemma digit_cases: "d < 10 \<Longrightarrow> d \<in> {0, 1, 2, 3, 4, 5, 6, 7, 8, 9::nat}"
  by auto

lemma digit_char_props:
  assumes "d < 10"
  shows "is_digit (digit_char d)" and "digit_val (digit_char d) = d"
    and "digit_char d \<noteq> CHR ''/''" and "digit_char d \<notin> set ''part''"
  using digit_cases[OF assms]
  by (auto simp: digit_char_def is_digit_def digit_val_def)

lemma itoa_digits: "c \<in> set (itoa n) \<Longrightarrow> \<exists>d < 10. c = digit_char d"
proof (induction n arbitrary: c rule: itoa.induct)
  case (1 n)
  show ?case
  proof (cases "n < 10")
    case True
    with 1(2) show ?thesis by (subst (asm) itoa.simps) auto
  next
    case False
    have "c \<in> set (itoa (n div 10)) \<or> c = digit_char (n mod 10)"
      using 1(2) False by (subst (asm) itoa.simps) auto
    then show ?thesis
    proof
      assume "c \<in> set (itoa (n div 10))"
      then show ?thesis using 1(1)[OF False] by blast
    next
      assume "c = digit_char (n mod 10)"
      moreover have "n mod 10 < 10" by simp
      ultimately show ?thesis by blast
    qed
  qed
qed

lemma itoa_nonempty: "itoa n \<noteq> []"
  by (subst itoa.simps) simp

lemma Sprintf_04d_digits: "c \<in> set (Sprintf_04d i) \<Longrightarrow> \<exists>d < 10. c = digit_char d"
proof -
  assume "c \<in> set (Sprintf_04d i)"
  then have "c = CHR ''0'' \<or> c \<in> set (itoa i)"
    by (auto simp: Sprintf_04d_def Let_def)
  then show ?thesis
  proof
    assume "c = CHR ''0''"
    then have "c = digit_char 0" by (simp add: digit_char_def)
    then show ?thesis by (intro exI[of _ 0]) simp
  next
    assume "c \<in> set (itoa i)"
    then show ?thesis by (rule itoa_digits)
  qed
qed

lemma Sprintf_04d_nonempty: "Sprintf_04d i \<noteq> []"
  using itoa_nonempty[of i] by (simp add: Sprintf_04d_def Let_def)

lemma itoa_1: "n < 10 \<Longrightarrow> itoa n = [digit_char n]"
  by (subst itoa.simps) simp

lemma itoa_2:
  assumes "10 \<le> n" "n < 100"
  shows "itoa n = [digit_char (n div 10), digit_char (n mod 10)]"
proof -
  have a: "n div 10 < 10" "\<not> n < 10"
    using assms by linarith+
  show ?thesis
    by (subst itoa.simps) (simp add: itoa_1[OF a(1)] a(2))
qed

lemma itoa_3:
  assumes "100 \<le> n" "n < 1000"
  shows "itoa n = [digit_char (n div 100), digit_char (n div 10 mod 10), digit_char (n mod 10)]"
proof -
  have a: "10 \<le> n div 10" "n div 10 < 100" "\<not> n < 10"
    using assms by linarith+
  have b: "n div 10 div 10 = n div 100"
    by (simp add: div_mult2_eq[symmetric])
  show ?thesis
    by (subst itoa.simps) (simp add: itoa_2[OF a(1,2)] a(3) b)
qed

lemma itoa_4:
  assumes "1000 \<le> n" "n < 10000"
  shows "itoa n = [digit_char (n div 1000), digit_char (n div 100 mod 10),
                   digit_char (n div 10 mod 10), digit_char (n mod 10)]"
proof -
  have a: "100 \<le> n div 10" "n div 10 < 1000" "\<not> n < 10"
    using assms by linarith+
  have b: "n div 10 div 100 = n div 1000" "n div 10 div 10 = n div 100"
    by (simp_all add: div_mult2_eq[symmetric])
  show ?thesis
    by (subst itoa.simps) (simp add: itoa_3[OF a(1,2)] a(3) b)
qed

lemma digit_char_0: "digit_char 0 = CHR ''0''"
  by (simp add: digit_char_def)

lemma replicate_small:
  "replicate 3 c = [c, c, c]" "replicate 2 c = [c, c]" "replicate 1 c = [c]"
  by (simp_all add: numeral_3_eq_3 numeral_2_eq_2)

lemma Sprintf_04d_4:
  assumes "i < 10000"
  shows "Sprintf_04d i = [digit_char (i div 1000), digit_char (i div 100 mod 10),
                          digit_char (i div 10 mod 10), digit_char (i mod 10)]"
proof -
  consider "i < 10" | "10 \<le> i" "i < 100" | "100 \<le> i" "i < 1000" | "1000 \<le> i" "i < 10000"
    using assms by linarith
  then show ?thesis
  proof cases
    case 1
    then have z: "i div 1000 = 0" "i div 100 mod 10 = 0" "i div 10 mod 10 = 0" "i mod 10 = i"
      by simp_all
    show ?thesis
      unfolding z by (simp add: Sprintf_04d_def itoa_1[OF 1] digit_char_0 replicate_small)
  next
    case 2
    then have z: "i div 1000 = 0" "i div 100 mod 10 = 0" "i div 10 mod 10 = i div 10"
      by simp_all
    show ?thesis
      unfolding z by (simp add: Sprintf_04d_def itoa_2[OF 2] digit_char_0 replicate_small)
  next
    case 3
    then have z: "i div 1000 = 0" "i div 100 mod 10 = i div 100"
      by simp_all
    show ?thesis
      unfolding z by (simp add: Sprintf_04d_def itoa_3[OF 3] digit_char_0 replicate_small)
  next
    case 4
    show ?thesis by (simp add: Sprintf_04d_def itoa_4[OF 4])
  qed
qed

lemma Sscanf_d_Sprintf_04d:
  assumes "i < 10000"
  shows "Sscanf_d (Sprintf_04d i) = i"
proof -
  have d: "i div 1000 < 10" "i div 100 mod 10 < 10" "i div 10 mod 10 < 10" "i mod 10 < 10"
    using assms by simp_all
  have "Sscanf_d (Sprintf_04d i)
      = 10 * (10 * (10 * (i div 1000) + i div 100 mod 10) + i div 10 mod 10) + i mod 10"
    by (simp add: Sprintf_04d_4[OF assms] Sscanf_d_def digit_char_props(2)[OF d(1)]
        digit_char_props(2)[OF d(2)] digit_char_props(2)[OF d(3)] digit_char_props(2)[OF d(4)])
  also have "\<dots> = i"
  proof -
    have 1: "10 * (i div 10) + i mod 10 = i" by simp
    have 2: "10 * (i div 100) + i div 10 mod 10 = i div 10"
      using mult_div_mod_eq[of 10 "i div 10"] by (simp add: div_mult2_eq[symmetric])
    have 3: "10 * (i div 1000) + i div 100 mod 10 = i div 100"
      using mult_div_mod_eq[of 10 "i div 100"] by (simp add: div_mult2_eq[symmetric])
    show ?thesis by (simp only: 3 2 1)
  qed
  finally show ?thesis .
qed

lemma Sprintf_04d_is_digit: "list_all is_digit (Sprintf_04d i)"
  unfolding list_all_iff
proof
  fix c assume "c \<in> set (Sprintf_04d i)"
  then obtain d where "d < 10" "c = digit_char d"
    using Sprintf_04d_digits by blast
  then show "is_digit c" using digit_char_props(1)[of d] by simp
qed

lemma FindStringSubmatch_chunk_name:
  "i < 10000 \<Longrightarrow> FindStringSubmatch (chunk_name stem i) = Some (Sprintf_04d i)"
proof -
  assume "i < 10000"
  then have "length (Sprintf_04d i) = 4" by (simp add: Sprintf_04d_4)
  then show ?thesis
    unfolding FindStringSubmatch_iff chunk_name_def
    by (intro exI[of _ stem]) (simp add: Sprintf_04d_is_digit)
qed

lemma chunk_name_inj:
  "i < 10000 \<Longrightarrow> j < 10000 \<Longrightarrow> chunk_name stem i = chunk_name stem j \<Longrightarrow> i = j"
proof -
  assume a: "i < 10000" "j < 10000" "chunk_name stem i = chunk_name stem j"
  from a(3) have "Sprintf_04d i = Sprintf_04d j"
    using a(1,2) by (simp add: chunk_name_def Sprintf_04d_4)
  then have "Sscanf_d (Sprintf_04d i) = Sscanf_d (Sprintf_04d j)" by (rule arg_cong)
  then show "i = j"
    by (simp only: Sscanf_d_Sprintf_04d[OF a(1)] Sscanf_d_Sprintf_04d[OF a(2)])
qed

lemma proper_chunk_name:
  assumes "CHR ''/'' \<notin> set stem"
  shows "proper (chunk_name stem i)"
proof -
  have "CHR ''/'' \<notin> set (Sprintf_04d i)"
  proof
    assume "CHR ''/'' \<in> set (Sprintf_04d i)"
    then obtain d where "d < 10" "CHR ''/'' = digit_char d"
      using Sprintf_04d_digits by blast
    then show False using digit_char_props(3)[of d] by simp
  qed
  then have ns: "CHR ''/'' \<notin> set (chunk_name stem i)"
    using assms by (simp add: chunk_name_def)
  have l: "length (chunk_name stem i) \<ge> 6"
    by (simp add: chunk_name_def)
  have ne: "chunk_name stem i \<noteq> x" if "length x < 6" for x
  proof
    assume "chunk_name stem i = x"
    then have "length (chunk_name stem i) = length x" by simp
    with l that show False by linarith
  qed
  have "chunk_name stem i \<noteq> []" "chunk_name stem i \<noteq> ''.''" "chunk_name stem i \<noteq> ''..''"
    by (rule ne, simp)+
  then show ?thesis
    unfolding proper_def using ns by blast
qed

section \<open>The claims\<close>

text \<open>
  C5 (header codec). For every metadata record (its arrays of 32 and 46 bytes), the
  encoding has exactly 98 bytes: the hash at offset 0, the total at 32, the size at 36,
  the time at 44 and the name at 52, each integer with its most significant byte first.
  Encoding is a function of the record, so equal records give equal bytes. Decoding the
  98 bytes gives the record back, whatever follows them in the reader, and decoding
  fails when fewer than 98 bytes are available.
\<close>

theorem metadata_codec:
  "wf_metadata m \<Longrightarrow>
     length (encode_metadata m) = 98
   \<and> take 32 (encode_metadata m) = Hash m
   \<and> take 4 (drop 32 (encode_metadata m))
       = [ucast (drop_bit 24 (Total m)), ucast (drop_bit 16 (Total m)),
          ucast (drop_bit 8 (Total m)), ucast (Total m)]
   \<and> take 8 (drop 36 (encode_metadata m))
       = map (\<lambda>i. ucast (drop_bit (56 - 8 * i) (Size m))) [0..<8]
   \<and> take 8 (drop 44 (encode_metadata m))
       = map (\<lambda>i. ucast (drop_bit (56 - 8 * i) (Time m))) [0..<8]
   \<and> drop 52 (encode_metadata m) = Name m
   \<and> (m' = m \<longrightarrow> encode_metadata m' = encode_metadata m)
   \<and> decode_metadata (encode_metadata m @ rest) = Inr m
   \<and> (length bs < 98 \<longrightarrow> decode_metadata bs = Inl ErrExtractRead)"
proof -
  assume wf: "wf_metadata m"
  then have h: "length (Hash m) = 32" and n: "length (Name m) = 46"
    by (simp_all add: wf_metadata_def MaxFilenameLength_def)
  have upt8: "[0..<8] = [0, 1, 2, 3, 4, 5, 6, 7::nat]"
    by (simp add: upt_rec)
  have 1: "length (encode_metadata m) = 98"
    using length_encode_metadata[OF wf] by (simp add: metadata_size_def)
  have 2: "take 32 (encode_metadata m) = Hash m"
    by (simp add: encode_metadata_def h)
  have 3: "take 4 (drop 32 (encode_metadata m)) = PutUint32 (Total m)"
    by (simp add: encode_metadata_def h length_PutUint32)
  have 4: "take 8 (drop 36 (encode_metadata m)) = PutUint64 (Size m)"
    by (simp add: encode_metadata_def h length_PutUint32 length_PutUint64)
  have 5: "take 8 (drop 44 (encode_metadata m)) = PutUint64 (Time m)"
    by (simp add: encode_metadata_def h length_PutUint32 length_PutUint64)
  have 6: "drop 52 (encode_metadata m) = Name m"
    by (simp add: encode_metadata_def h length_PutUint32 length_PutUint64)
  have 7: "length bs < 98 \<longrightarrow> decode_metadata bs = Inl ErrExtractRead"
    by (simp add: decode_metadata_def metadata_size_def)
  show ?thesis
    using 1 2 3 4 5 6 7 decode_encode_metadata[OF wf, of rest]
    by (simp add: PutUint32_def PutUint64_def upt8)
qed

theorem metadata_codec_witness:
  "wf_metadata example_meta
   \<and> length (encode_metadata example_meta) = 98
   \<and> take 4 (drop 32 (encode_metadata example_meta)) = [1, 2, 3, 4]
   \<and> decode_metadata (encode_metadata example_meta @ [1, 2, 3]) = Inr example_meta
   \<and> decode_metadata (take 97 (encode_metadata example_meta)) = Inl ErrExtractRead"
proof -
  have wf: "wf_metadata example_meta"
    by (simp add: wf_metadata_def example_meta_def copy_into_def bytes_of_def MaxFilenameLength_def)
  have t: "Total example_meta = 0x01020304"
    by (simp add: example_meta_def)
  have l: "length (take 97 (encode_metadata example_meta)) < 98"
    by simp
  show ?thesis
    using wf l metadata_codec[OF wf, of example_meta "[1, 2, 3]" "take 97 (encode_metadata example_meta)"]
    by (simp add: t)
qed

text \<open>
  C8 (generic path). \<^verbatim>\<open>SplitData\<close> with at least two chunks, an output slice of that
  length and a value gob encodes to \<open>data\<close> fills the slice with byte ranges \<open>rs\<close>. With
  \<open>partSize = floor(len / chunks)\<close>, at least 1 when \<open>len > 0\<close>: every range before the
  last that starts inside the data has \<open>partSize\<close> bytes, a range that starts at or beyond
  the end of the data is empty, the last range holds whatever is left after
  \<open>chunks - 1\<close> parts, and the ranges joined in order are the data. \<^verbatim>\<open>MergeData\<close> on the
  ranges then returns what gob decodes from the data, the original value for a gob pair
  that round-trips. The witness is the 7-byte buffer split in 3: sizes 2, 2 and 3.
\<close>

theorem SplitData_partition_roundtrip:
  assumes "v \<noteq> NilAny" and "2 \<le> chunks" and "int (length a) = chunks"
    and "gob_enc v = Some data"
  shows "\<exists>rs. SplitData gob_enc v a chunks = Inr (map Bytes rs)
           \<and> length rs = nat chunks
           \<and> (let n = nat chunks;
                   len = length data;
                   partSize = (if 0 < len then max 1 (len div n) else 0)
               in (\<forall>i < n - 1. i * partSize < len \<longrightarrow> length (rs ! i) = partSize)
                \<and> (\<forall>i < n. len \<le> i * partSize \<longrightarrow> rs ! i = [])
                \<and> length (rs ! (n - 1)) = len - (n - 1) * partSize)
           \<and> concat rs = data
           \<and> (data \<noteq> [] \<and> gob_dec data old = Some x
                \<longrightarrow> MergeData gob_dec (map Bytes rs) (Some old) = Inr x)"
proof -
  define n where "n = nat chunks"
  define ps where "ps = part_size (length data) n"
  define rs where "rs = map (split_range data ps n) [0..<n]"
  have n2: "2 \<le> n" using assms(2) by (simp add: n_def)
  have split: "SplitData gob_enc v a chunks = Inr (map Bytes rs)"
    using SplitData_ranges[of v chunks a gob_enc data] assms
    by (simp add: rs_def ps_def n_def comp_def)
  have len: "length rs = n" by (simp add: rs_def)
  have nth: "rs ! i = split_range data ps n i" if "i < n" for i
    using that by (simp add: rs_def)
  have inner: "length (rs ! i) = ps" if "i < n - 1" "i * ps < length data" for i
  proof -
    have "Suc i < n" using that by simp
    moreover from this have "Suc i * ps \<le> length data"
      using part_size_mult_le[of i n "length data"] that by (simp add: ps_def)
    ultimately show ?thesis
      using that nth[of i] split_range_inner[of i n data] by (simp add: ps_def)
  qed
  have beyond: "rs ! i = []" if "i < n" "length data \<le> i * ps" for i
    using that nth[of i] by (simp add: split_range_def Let_def)
  have last: "length (rs ! (n - 1)) = length data - (n - 1) * ps"
    using n2 nth[of "n - 1"] split_range_last[of n data ps] by simp
  have cat: "concat rs = data"
    using concat_split_ranges[of n data] n2 by (simp add: rs_def ps_def)
  have merge: "MergeData gob_dec (map Bytes rs) (Some old) = Inr x"
    if "data \<noteq> []" "gob_dec data old = Some x"
  proof -
    have "rs \<noteq> []" using len n2 by auto
    then show ?thesis
      using that cat by (simp add: MergeData_def combine_Bytes)
  qed
  have ps_eq: "ps = (if 0 < length data then max 1 (length data div n) else 0)"
    by (simp add: ps_def part_size_spec)
  show ?thesis
    apply (rule exI[of _ rs])
    apply (simp only: Let_def n_def[symmetric] ps_eq[symmetric])
    using split len inner beyond last cat merge by blast
qed

theorem SplitData_partition_roundtrip_witness:
  "SplitData gob7 (Val 9) [NilAny, NilAny, NilAny] 3 = Inr [Bytes [1, 2], Bytes [3, 4], Bytes [5, 6, 9]]
   \<and> MergeData ungob7 [Bytes [1, 2], Bytes [3, 4], Bytes [5, 6, 9]] (Some 0) = Inr 9"
proof -
  have e: "gob7 (Val 9) = Some [1, 2, 3, 4, 5, 6, 9]"
    by (simp add: gob7_def)
  have d: "ungob7 [1, 2, 3, 4, 5, 6, 9] 0 = Some 9"
    by (simp add: ungob7_def)
  have s: "SplitData gob7 (Val 9) [NilAny, NilAny, NilAny] 3 = Inr [Bytes [1, 2], Bytes [3, 4], Bytes [5, 6, 9]]"
    by (simp add: SplitData_def e MinChunks_def part_size_def split_range_def upt_rec)
  obtain rs where rs: "SplitData gob7 (Val 9) [NilAny, NilAny, NilAny] 3 = Inr (map Bytes rs)"
    and m: "[1, 2, 3, 4, 5, 6, 9] \<noteq> ([]::byte list) \<and> ungob7 [1, 2, 3, 4, 5, 6, 9] 0 = Some 9
              \<longrightarrow> MergeData ungob7 (map Bytes rs) (Some 0) = Inr 9"
    using SplitData_partition_roundtrip[of "Val 9" 3 "[NilAny, NilAny, NilAny]" gob7 "[1, 2, 3, 4, 5, 6, 9]" ungob7 0 9] e
    by auto
  from rs s have "map Bytes rs = [Bytes [1, 2], Bytes [3, 4], Bytes [5, 6, 9 :: byte] :: nat any]"
    by simp
  with m d s show ?thesis by simp
qed






text \<open>
  C1 (split/merge round trip) does not hold for the content of length 0. No chunk is
  written for an empty file, so \<^verbatim>\<open>firstChunk\<close> is still the empty path when
  \<^verbatim>\<open>injectMetadata\<close> opens it: \<^verbatim>\<open>SplitFile\<close> returns an error and leaves no
  fragment, and \<^verbatim>\<open>MergeFile\<close> of the directory then finds no chunk file.
\<close>

theorem roundtrip_empty_content:
  "SplitFile toy_digest 7 [] empty_file ''/out'' 2 = Done (Some ErrOpenSource) [(''/out'', Directory)]
   \<and> MergeFile toy_digest [(''/out'', Directory)] ''/out'' = Done (Some ErrNoChunkFiles) [(''/out'', Directory)]"
  by code_simp


text \<open>
  C7 (minimum chunk validation): the part "splitting with chunk count 2 succeeds" does
  not hold for every input. Splitting the empty file with chunk count 2 passes the
  validation and then fails to open the first chunk, which was never written.
\<close>

theorem SplitFile_empty_content_2:
  "SplitFile toy_digest 7 [] empty_file ''/out'' 2 = Done (Some ErrOpenSource) [(''/out'', Directory)]"
  by code_simp


text \<open>
  C3 (Total field): the header stores the requested chunk count, not the number of
  files written. Splitting a 4-byte file with chunk count 3 reads with a buffer of
  \<open>4 div 3 + 1 = 2\<close> bytes, writes two fragment files and stores \<open>Total = 3\<close>.
\<close>

theorem Total_differs_from_files_written:
  "(case SplitFile toy_digest 7 [] abcd_file ''/out'' 3 of
      Done e fs \<Rightarrow> e = None \<and> header_Total fs ''/out/data_0000.part'' = Some 3
                     \<and> fragment_count fs ''/out'' = 2
                     \<and> map fst fs = [''/out/data_0000.part'', ''/out/data_0001.part'', ''/out'']
    | Diverges \<Rightarrow> False)"
  by code_simp

end
